theory Spec2Isabelle
  imports Complex_Main
begin

section \<open>Text primitives of the Python runtime\<close>

text \<open>
  A Python \<^verbatim>\<open>str\<close> is modelled as a \<^typ>\<open>string\<close> whose characters are the code
  points U+0000 to U+00FF. On that range \<^verbatim>\<open>str.isspace\<close> holds for exactly the twelve
  characters below, and the pattern \<^verbatim>\<open>\d\<close> matches exactly the ten ASCII digits.
\<close>

definition is_space :: "char \<Rightarrow> bool" where
  "is_space c = (c \<in> set [CHR 0x09, CHR 0x0A, CHR 0x0B, CHR 0x0C, CHR 0x0D,
     CHR 0x1C, CHR 0x1D, CHR 0x1E, CHR 0x1F, CHR 0x20, CHR 0x85, CHR 0xA0])"

definition is_digit :: "char \<Rightarrow> bool" where
  "is_digit c = (c \<in> set ''0123456789'')"

text \<open>\<^verbatim>\<open>s.lstrip()\<close>, \<^verbatim>\<open>s.rstrip()\<close> and \<^verbatim>\<open>s.strip()\<close>.\<close>

definition lstrip :: "string \<Rightarrow> string" where
  "lstrip s = dropWhile is_space s"

definition rstrip :: "string \<Rightarrow> string" where
  "rstrip s = rev (dropWhile is_space (rev s))"

definition strip :: "string \<Rightarrow> string" where
  "strip s = lstrip (rstrip s)"

text \<open>
  \<^verbatim>\<open>s.split()\<close> without a separator: skip white space, cut the run of characters that
  follows up to the next white space, and go on behind it.
\<close>

function split_ws :: "string \<Rightarrow> string list" where
  "split_ws s =
     (case dropWhile is_space s of
        [] \<Rightarrow> []
      | c # cs \<Rightarrow> (c # takeWhile (\<lambda>x. \<not> is_space x) cs)
                 # split_ws (dropWhile (\<lambda>x. \<not> is_space x) cs))"
  by pat_completeness auto
termination
proof (relation "measure length")
  show "wf (measure length)" by simp
next
  fix s :: string and c cs
  assume "dropWhile is_space s = c # cs"
  then have "length (c # cs) \<le> length s"
    by (metis length_dropWhile_le)
  moreover have "length (dropWhile (\<lambda>x. \<not> is_space x) cs) \<le> length cs"
    by (rule length_dropWhile_le)
  ultimately show "(dropWhile (\<lambda>x. \<not> is_space x) cs, s) \<in> measure length"
    by simp
qed

declare split_ws.simps [simp del]

text \<open>\<^verbatim>\<open>sep.join(xs)\<close>.\<close>

fun join :: "string \<Rightarrow> string list \<Rightarrow> string" where
  "join sep [] = []"
| "join sep [x] = x"
| "join sep (x # y # ys) = x @ sep @ join sep (y # ys)"

text \<open>\<^verbatim>\<open>s.split(c)\<close> for a separator of one character: never the empty list.\<close>

function split_on :: "char \<Rightarrow> string \<Rightarrow> string list" where
  "split_on c s =
     (case dropWhile (\<lambda>x. x \<noteq> c) s of
        [] \<Rightarrow> [s]
      | _ # rest \<Rightarrow> takeWhile (\<lambda>x. x \<noteq> c) s # split_on c rest)"
  by pat_completeness auto
termination
proof (relation "measure (\<lambda>(c, s). length s)")
  show "wf (measure (\<lambda>(c :: char, s :: string). length s))" by simp
next
  fix c :: char and s :: string and x rest
  assume "dropWhile (\<lambda>x. x \<noteq> c) s = x # rest"
  then have "length (x # rest) \<le> length s"
    by (metis length_dropWhile_le)
  then show "((c, rest), (c, s)) \<in> measure (\<lambda>(c, s). length s)"
    by simp
qed

declare split_on.simps [simp del]

text \<open>\<^verbatim>\<open>s.startswith(p)\<close>.\<close>

definition startswith :: "string \<Rightarrow> string \<Rightarrow> bool" where
  "startswith s p = (take (length p) s = p)"

text \<open>
  \<^verbatim>\<open>s.replace(old, new)\<close>: every occurrence of \<open>old\<close>, found from the left and not
  overlapping, becomes \<open>new\<close>. An empty \<open>old\<close> matches before every character and at
  the end.
\<close>

function replace :: "string \<Rightarrow> string \<Rightarrow> string \<Rightarrow> string" where
  "replace old new s =
     (if old = [] then new @ concat (map (\<lambda>c. c # new) s)
      else if s = [] then []
      else if startswith s old then new @ replace old new (drop (length old) s)
      else hd s # replace old new (tl s))"
  by pat_completeness auto
termination
  by (relation "measure (\<lambda>(old, new, s). length s)") auto

declare replace.simps [simp del]

section \<open>Configuration and text normalisation\<close>

definition MAX_TOKENS :: int where
  "MAX_TOKENS = 15000"

text \<open>\<^verbatim>\<open>' '.join(text.split())\<close>\<close>

definition clean_text :: "string \<Rightarrow> string" where
  "clean_text text = join '' '' (split_ws text)"

text \<open>
  \<^verbatim>\<open>text[:max_chars]\<close>. A negative bound counts from the end of the text, as Python
  slices do.
\<close>

definition truncate_text :: "string \<Rightarrow> int \<Rightarrow> string" where
  "truncate_text text max_chars =
     (if 0 \<le> max_chars then take (nat max_chars) text
      else take (length text - nat (- max_chars)) text)"

text \<open>The two calls of the form handler, with the default budget.\<close>

definition normalize :: "string \<Rightarrow> string" where
  "normalize text = truncate_text (clean_text text) MAX_TOKENS"

section \<open>The block delimiter\<close>

text \<open>
  The pattern \<^verbatim>\<open>\n?\*?\*?\d+\.\*?\*?\n?\<close> is a sequence of items of three kinds: a
  literal character, an optional literal character, and \<^verbatim>\<open>\d+\<close>. A backtracking
  matcher tries the alternatives of each item in a fixed order (greedy: the longer one
  first); \<open>re_match\<close> lists the remainders of the text behind every successful match, in
  the order in which the matcher finds them. The first one is the match that Python
  reports.
\<close>

datatype re_item = Lit char | OptLit char | Digits1

fun digits1 :: "string \<Rightarrow> string list" where
  "digits1 [] = []"
| "digits1 (x # xs) = (if is_digit x then digits1 xs @ [xs] else [])"

fun re_item_match :: "re_item \<Rightarrow> string \<Rightarrow> string list" where
  "re_item_match (Lit c) s = (case s of [] \<Rightarrow> [] | x # xs \<Rightarrow> if x = c then [xs] else [])"
| "re_item_match (OptLit c) s =
     (case s of [] \<Rightarrow> [s] | x # xs \<Rightarrow> if x = c then [xs, s] else [s])"
| "re_item_match Digits1 s = digits1 s"

fun re_match :: "re_item list \<Rightarrow> string \<Rightarrow> string list" where
  "re_match [] s = [s]"
| "re_match (i # is) s = concat (map (re_match is) (re_item_match i s))"

definition delimiter :: "re_item list" where
  "delimiter = [OptLit CHR 0x0A, OptLit CHR ''*'', OptLit CHR ''*'', Digits1,
     Lit CHR ''.'', OptLit CHR ''*'', OptLit CHR ''*'', OptLit CHR 0x0A]"

text \<open>The match of the pattern at the start of the text: what is left behind it.\<close>

definition match_at :: "re_item list \<Rightarrow> string \<Rightarrow> string option" where
  "match_at p s = (case re_match p s of [] \<Rightarrow> None | r # _ \<Rightarrow> Some r)"

text \<open>
  The leftmost match: the text before it and the text behind it.
\<close>

fun re_search :: "re_item list \<Rightarrow> string \<Rightarrow> (string \<times> string) option" where
  "re_search p [] = (case match_at p [] of None \<Rightarrow> None | Some r \<Rightarrow> Some ([], r))"
| "re_search p (c # cs) =
     (case match_at p (c # cs) of
        Some r \<Rightarrow> Some ([], r)
      | None \<Rightarrow> (case re_search p cs of
                  None \<Rightarrow> None
                | Some (pre, r) \<Rightarrow> Some (c # pre, r)))"

text \<open>
  \<^verbatim>\<open>re.split(pattern, raw_output)\<close> for the delimiter, which has no group and never
  matches the empty string: the text before the leftmost match, then the split of the
  text behind it.
\<close>

function split_blocks :: "string \<Rightarrow> string list" where
  "split_blocks s =
     (case re_search delimiter s of
        None \<Rightarrow> [s]
      | Some (pre, r) \<Rightarrow> pre # split_blocks r)"
  by pat_completeness auto
termination
proof -
  have d: "length r < length s" if "r \<in> set (digits1 s)" for r s
    using that by (induction s) (auto split: if_splits)
  have i: "length r \<le> length s" if "r \<in> set (re_item_match j s)" for j r s
    using that by (cases j; cases s) (auto split: if_splits dest: d less_imp_le)
  have m: "length r \<le> length s" if "r \<in> set (re_match p s)" for p r s
    using that
  proof (induction p arbitrary: s)
    case Nil
    then show ?case by simp
  next
    case (Cons j p)
    then obtain t where t: "t \<in> set (re_item_match j s)" and r: "r \<in> set (re_match p t)"
      by auto
    from Cons.IH [OF r] i [OF t] show ?case by simp
  qed
  have a: "set (re_match (p @ q) s) = (\<Union>t \<in> set (re_match p s). set (re_match q t))"
    for p q s
    by (induction p arbitrary: s) auto
  have dl: "length r < length s" if "r \<in> set (re_match delimiter s)" for r s
  proof -
    have split: "delimiter = [OptLit CHR 0x0A, OptLit CHR ''*'', OptLit CHR ''*''] @ [Digits1]
        @ [Lit CHR ''.'', OptLit CHR ''*'', OptLit CHR ''*'', OptLit CHR 0x0A]"
      by (simp add: delimiter_def)
    from that obtain u v where u: "u \<in> set (re_match [OptLit CHR 0x0A, OptLit CHR ''*'',
        OptLit CHR ''*''] s)"
      and v: "v \<in> set (re_match [Digits1] u)"
      and r: "r \<in> set (re_match [Lit CHR ''.'', OptLit CHR ''*'', OptLit CHR ''*'',
        OptLit CHR 0x0A] v)"
      unfolding split a by blast
    from v have "length v < length u"
      by (auto dest: d)
    with m [OF u] m [OF r] show ?thesis by simp
  qed
  have ma: "length r < length s" if "match_at delimiter s = Some r" for r s
    using that by (auto simp: match_at_def split: list.splits intro: dl)
  have se: "length r < length s" if "re_search delimiter s = Some (pre, r)" for pre r s
    using that
  proof (induction s arbitrary: pre)
    case Nil
    then show ?case
      by (auto split: option.splits dest: ma)
  next
    case (Cons c cs)
    show ?case
    proof (cases "match_at delimiter (c # cs)")
      case (Some r')
      with Cons.prems show ?thesis
        by (auto dest: ma)
    next
      case None
      with Cons.prems obtain pre' where "re_search delimiter cs = Some (pre', r)"
        by (auto split: option.splits)
      from Cons.IH [OF this] show ?thesis by simp
    qed
  qed
  show ?thesis
    by (relation "measure length") (auto dest: se)
qed

declare split_blocks.simps [simp del]

section \<open>The parser of the model's answer\<close>

text \<open>The dictionary that \<^verbatim>\<open>parse_mcqs\<close> appends for one question.\<close>

record mcq =
  scenario :: string
  options :: "string list"
  answer :: string
  explanation :: string

text \<open>The values of the variable \<^verbatim>\<open>state\<close>.\<close>

datatype pstate = Scenario | Options | Answer | Explanation

text \<open>The variables of the loop over the lines of one block.\<close>

record block_vars =
  v_scenario :: "string list"
  v_options :: "string list"
  v_answer :: string
  v_explanation :: string
  v_state :: pstate

definition init_vars :: block_vars where
  "init_vars = \<lparr>v_scenario = [], v_options = [], v_answer = [], v_explanation = [],
     v_state = Scenario\<rparr>"

text \<open>\<^verbatim>\<open>re.match(r"^[A-D][\).]", l)\<close>\<close>

definition is_option_line :: "string \<Rightarrow> bool" where
  "is_option_line l =
     (case l of
        a # b # _ \<Rightarrow> a \<in> set ''ABCD'' \<and> b \<in> set '').''
      | _ \<Rightarrow> False)"

text \<open>The body of the loop over the lines.\<close>

definition parse_line :: "block_vars \<Rightarrow> string \<Rightarrow> block_vars" where
  "parse_line v line =
     (let l = strip line in
      if is_option_line l then
        v\<lparr>v_state := Options, v_options := v_options v @ [l]\<rparr>
      else if startswith l ''Correct Answer:'' then
        v\<lparr>v_answer := strip (replace ''Correct Answer:'' [] l), v_state := Answer\<rparr>
      else if startswith l ''Explanation:'' then
        v\<lparr>v_explanation := strip (replace ''Explanation:'' [] l), v_state := Explanation\<rparr>
      else if v_state v = Scenario then
        v\<lparr>v_scenario := v_scenario v @ [l]\<rparr>
      else if v_state v = Options then
        v\<lparr>v_options := v_options v @ [l]\<rparr>
      else v)"

definition parse_lines :: "string list \<Rightarrow> block_vars" where
  "parse_lines lines = foldl parse_line init_vars lines"

text \<open>The body of the loop over the blocks: \<open>mcqs\<close> is the list built so far.\<close>

definition parse_block :: "mcq list \<Rightarrow> string \<Rightarrow> mcq list" where
  "parse_block mcqs block0 =
     (let block = strip block0 in
      if block = [] \<or> length block < 20 then mcqs
      else
        let v = parse_lines (split_on CHR 0x0A block) in
        if v_options v \<noteq> [] \<and> v_answer v \<noteq> [] then
          mcqs @ [\<lparr>scenario = join '' '' (v_scenario v), options = v_options v,
                    answer = v_answer v, explanation = v_explanation v\<rparr>]
        else mcqs)"

definition parse_mcqs :: "string \<Rightarrow> mcq list" where
  "parse_mcqs raw_output = foldl parse_block [] (split_blocks raw_output)"

section \<open>The export of the parsed questions\<close>

text \<open>\<^verbatim>\<open>str(i)\<close> for an index, which is never negative: its decimal digits.\<close>

definition digit_char :: "nat \<Rightarrow> char" where
  "digit_char d = char_of (48 + d)"

function str_nat :: "nat \<Rightarrow> string" where
  "str_nat n = (if n < 10 then [digit_char n] else str_nat (n div 10) @ [digit_char (n mod 10)])"
  by pat_completeness auto
termination
  by (relation "measure id") auto

declare str_nat.simps [simp del]

text \<open>\<^verbatim>\<open>out.write(s)\<close> on a \<^verbatim>\<open>StringIO\<close>: the buffer afterwards.\<close>

definition out_write :: "string \<Rightarrow> string \<Rightarrow> string" where
  "out_write out s = out @ s"

fun write_options :: "string \<Rightarrow> string list \<Rightarrow> string" where
  "write_options out [] = out"
| "write_options out (opt # opts) = write_options (out_write out (opt @ ''\<newline>'')) opts"

definition write_mcq :: "string \<Rightarrow> nat \<Rightarrow> mcq \<Rightarrow> string" where
  "write_mcq out0 i m =
     (let out1 = out_write out0 (''### Q'' @ str_nat i @ '': '' @ scenario m @ ''\<newline>'');
          out2 = write_options out1 (options m);
          out3 = out_write out2 (''**Correct Answer:** '' @ answer m @ ''\<newline>'')
      in out_write out3 (''**Explanation:** '' @ explanation m @ ''\<newline>\<newline>''))"

text \<open>The loop over \<^verbatim>\<open>enumerate(mcqs, 1)\<close>.\<close>

fun write_mcqs :: "string \<Rightarrow> nat \<Rightarrow> mcq list \<Rightarrow> string" where
  "write_mcqs out i [] = out"
| "write_mcqs out i (m # ms) = write_mcqs (write_mcq out i m) (i + 1) ms"

definition mcqs_to_md :: "mcq list \<Rightarrow> string" where
  "mcqs_to_md mcqs = write_mcqs [] 1 mcqs"

text \<open>The two download buttons: both are given the same value \<^verbatim>\<open>md\<close>.\<close>

record download =
  d_label :: string
  d_data :: string
  d_file_name :: string
  d_mime :: string
  d_key :: string

definition download_buttons :: "mcq list \<Rightarrow> download list" where
  "download_buttons mcqs =
     (let md = mcqs_to_md mcqs in
      [\<lparr>d_label = ''Download MCQs (Markdown)'', d_data = md, d_file_name = ''mcqs.md'',
         d_mime = ''text/markdown'', d_key = ''download_md''\<rparr>,
       \<lparr>d_label = ''Download MCQs (Text)'', d_data = md, d_file_name = ''mcqs.txt'',
         d_mime = ''text/plain'', d_key = ''download_txt''\<rparr>])"

section \<open>The completion step\<close>










section \<open>Notions for stating and proving the properties\<close>

text \<open>
  None of the definitions of this section is part of the program: they say what the
  specification's words mean (the layout of the export, a well-formed numbered block) and
  name what the proofs need.
\<close>

text \<open>
  The layout in the words of the specification: the lines of record number \<open>i\<close> are a
  heading with the number and the scenario, the option lines, the answer line, the
  explanation line and an empty line; a text is its lines, each ended by a newline.
\<close>

definition mcq_lines :: "nat \<Rightarrow> mcq \<Rightarrow> string list" where
  "mcq_lines i m =
     [''### Q'' @ str_nat i @ '': '' @ scenario m] @ options m @
     [''**Correct Answer:** '' @ answer m, ''**Explanation:** '' @ explanation m, []]"

definition unlines :: "string list \<Rightarrow> string" where
  "unlines ls = concat (map (\<lambda>l. l @ ''\<newline>'') ls)"

text \<open>
  The words of a text are not empty and contain no white space. A text is in normal form
  when it is such words joined by single spaces.
\<close>

definition is_word :: "string \<Rightarrow> bool" where
  "is_word w = (w \<noteq> [] \<and> list_all (\<lambda>c. \<not> is_space c) w)"


















section \<open>Truncation\<close>

text \<open>
  C7. For every text and every budget that is not negative, the result of
  \<open>truncate_text\<close> is at most as long as the budget, and a text that is at most as long
  as the budget is returned unchanged.
\<close>

theorem truncate_text_bounded:
  "0 \<le> max_chars \<Longrightarrow>
     int (length (truncate_text text max_chars)) \<le> max_chars \<and>
     (int (length text) \<le> max_chars \<longrightarrow> truncate_text text max_chars = text)"
  by (auto simp: truncate_text_def)

theorem truncate_text_bounded_witness:
  "(0::int) \<le> 3 \<and> int (length (truncate_text ''abcde'' 3)) \<le> 3 \<and>
   truncate_text ''abcde'' 3 = ''abc'' \<and>
   int (length ''ab'') \<le> 3 \<and> truncate_text ''ab'' 3 = ''ab''"
  using truncate_text_bounded [of 3 "''abcde''"] truncate_text_bounded [of 3 "''ab''"]
  by (simp add: truncate_text_def)

section \<open>The lines of a block\<close>

text \<open>
  C4. Whatever the values of the loop variables are (in particular whatever the state is),
  a line whose stripped form starts with one of the letters A to D followed by
  \<open>)\<close> or \<open>.\<close> sets the state to \<open>Options\<close> and appends the line, in its stripped form
  \<open>l\<close>, to the options; the scenario, the answer and the explanation are left as they were.
\<close>

theorem parse_line_option:
  "is_option_line (strip line) \<Longrightarrow>
     v_state (parse_line v line) = Options \<and>
     v_options (parse_line v line) = v_options v @ [strip line] \<and>
     v_scenario (parse_line v line) = v_scenario v \<and>
     v_answer (parse_line v line) = v_answer v \<and>
     v_explanation (parse_line v line) = v_explanation v"
  by (simp add: parse_line_def)

theorem parse_line_option_witness:
  "is_option_line (strip '' B. Invalid '') \<and>
   v_state (parse_line (init_vars\<lparr>v_state := Explanation\<rparr>) '' B. Invalid '') = Options \<and>
   v_options (parse_line (init_vars\<lparr>v_state := Explanation\<rparr>) '' B. Invalid '') = [''B. Invalid'']"
proof -
  have s: "strip '' B. Invalid '' = ''B. Invalid''"
    by code_simp
  have h: "is_option_line (strip '' B. Invalid '')"
    by code_simp
  from parse_line_option [OF h, of "init_vars\<lparr>v_state := Explanation\<rparr>"] h s
  show ?thesis by (simp add: init_vars_def)
qed

section \<open>Short blocks\<close>

text \<open>
  C5. A block whose stripped text has fewer than 20 characters adds no record to the list,
  whatever it contains.
\<close>

theorem parse_block_short:
  "length (strip block) < 20 \<Longrightarrow> parse_block mcqs block = mcqs"
  by (simp add: parse_block_def)

text \<open>
  The witness is a block of 19 characters with an option line and an answer; one more
  character and the same block is parsed to a record.
\<close>

theorem parse_block_short_witness:
  "length (strip ''A)\<newline>Correct Answer:B'') < 20 \<and>
   parse_block [] ''A)\<newline>Correct Answer:B'' = [] \<and>
   parse_block [] ''A)x\<newline>Correct Answer:B'' =
     [\<lparr>scenario = [], options = [''A)x''], answer = ''B'', explanation = []\<rparr>]"
proof -
  have h: "length (strip ''A)\<newline>Correct Answer:B'') < 20"
    by code_simp
  have e: "parse_block [] ''A)x\<newline>Correct Answer:B'' =
     [\<lparr>scenario = [], options = [''A)x''], answer = ''B'', explanation = []\<rparr>]"
    by code_simp
  from parse_block_short [OF h, of "[]"] h e show ?thesis by simp
qed

section \<open>The end-to-end example\<close>

text \<open>
  C3. The raw output of the specification's example is parsed to exactly one record, with
  the scenario, the four options, the answer and the explanation that the specification
  gives.
\<close>

theorem parse_mcqs_example:
  "parse_mcqs ''1. A tenant is evicted without notice.\<newline>A) Valid\<newline>B) Invalid\<newline>C) Unclear\<newline>D) None\<newline>Correct Answer: B\<newline>Explanation: Due process requires notice.''
   = [\<lparr>scenario = ''A tenant is evicted without notice.'',
        options = [''A) Valid'', ''B) Invalid'', ''C) Unclear'', ''D) None''],
        answer = ''B'', explanation = ''Due process requires notice.''\<rparr>]"
  by code_simp

section \<open>The delimiter inside a line\<close>

text \<open>
  C10. The delimiter is not tied to the start of a line. In the raw output below the only
  numbered marker at the start of a line is \<open>1.\<close>, and the scenario cites
  \<open>Section 151.\<close> in the middle of its line; the text is split there as well, so the one
  question is divided into two blocks (after the empty text before the first marker).
\<close>

theorem split_blocks_inside_line:
  "split_blocks ''1. Police held Ravi under Section 151. Was the arrest lawful?\<newline>A) Yes\<newline>B) No\<newline>C) Unclear\<newline>D) None\<newline>Correct Answer: B\<newline>Explanation: No grounds were given.''
   = [[], '' Police held Ravi under Section '',
      '' Was the arrest lawful?\<newline>A) Yes\<newline>B) No\<newline>C) Unclear\<newline>D) None\<newline>Correct Answer: B\<newline>Explanation: No grounds were given.'']"
  by code_simp

section \<open>The missing credential\<close>



section \<open>The exported text\<close>

lemma write_options_eq: "write_options out opts = out @ unlines opts"
  by (induction opts arbitrary: out) (simp_all add: out_write_def unlines_def)

lemma write_mcq_eq: "write_mcq out i m = out @ unlines (mcq_lines i m)"
  by (simp add: write_mcq_def Let_def out_write_def write_options_eq mcq_lines_def unlines_def)

lemma write_mcqs_eq:
  "write_mcqs out i ms =
     out @ concat (map (\<lambda>k. unlines (mcq_lines (i + k) (ms ! k))) [0..<length ms])"
proof (induction ms arbitrary: out i)
  case Nil
  then show ?case by simp
next
  case (Cons m ms)
  have "map (\<lambda>k. unlines (mcq_lines (i + k) ((m # ms) ! k))) [0..<length (m # ms)]
      = unlines (mcq_lines i m)
        # map (\<lambda>k. unlines (mcq_lines (i + 1 + k) (ms ! k))) [0..<length ms]"
    by (simp add: upt_conv_Cons map_Suc_upt [symmetric] del: upt_Suc)
  then show ?case
    by (simp add: Cons.IH write_mcq_eq del: upt_Suc)
qed

text \<open>
  C9. The exported text is, record by record and in the order of the list, the lines of
  each record under its index counted from 1; and the two downloads, \<open>mcqs.md\<close> and
  \<open>mcqs.txt\<close>, carry the same text.
\<close>

theorem mcqs_to_md_layout:
  "mcqs_to_md mcqs =
     concat (map (\<lambda>k. unlines (mcq_lines (k + 1) (mcqs ! k))) [0..<length mcqs]) \<and>
   map d_file_name (download_buttons mcqs) = [''mcqs.md'', ''mcqs.txt''] \<and>
   map d_data (download_buttons mcqs) = [mcqs_to_md mcqs, mcqs_to_md mcqs]"
  by (simp add: mcqs_to_md_def write_mcqs_eq download_buttons_def Let_def)

theorem mcqs_to_md_layout_witness:
  "mcqs_to_md
     [\<lparr>scenario = ''A tenant is evicted without notice.'',
       options = [''A) Valid'', ''B) Invalid'', ''C) Unclear'', ''D) None''],
       answer = ''B'', explanation = ''Due process requires notice.''\<rparr>,
      \<lparr>scenario = ''A man is held without charge.'', options = [''A) Lawful'', ''B) Unlawful''],
       answer = ''B'', explanation = []\<rparr>]
   = ''### Q1: A tenant is evicted without notice.\<newline>A) Valid\<newline>B) Invalid\<newline>C) Unclear\<newline>D) None\<newline>**Correct Answer:** B\<newline>**Explanation:** Due process requires notice.\<newline>\<newline>### Q2: A man is held without charge.\<newline>A) Lawful\<newline>B) Unlawful\<newline>**Correct Answer:** B\<newline>**Explanation:** \<newline>\<newline>''"
proof -
  let ?ms = "[\<lparr>scenario = ''A tenant is evicted without notice.'',
       options = [''A) Valid'', ''B) Invalid'', ''C) Unclear'', ''D) None''],
       answer = ''B'', explanation = ''Due process requires notice.''\<rparr>,
      \<lparr>scenario = ''A man is held without charge.'', options = [''A) Lawful'', ''B) Unlawful''],
       answer = ''B'', explanation = []\<rparr>]"
  have e: "concat (map (\<lambda>k. unlines (mcq_lines (k + 1) (?ms ! k))) [0..<length ?ms])
   = ''### Q1: A tenant is evicted without notice.\<newline>A) Valid\<newline>B) Invalid\<newline>C) Unclear\<newline>D) None\<newline>**Correct Answer:** B\<newline>**Explanation:** Due process requires notice.\<newline>\<newline>### Q2: A man is held without charge.\<newline>A) Lawful\<newline>B) Unlawful\<newline>**Correct Answer:** B\<newline>**Explanation:** \<newline>\<newline>''"
    by code_simp
  from mcqs_to_md_layout [of ?ms] have
    "mcqs_to_md ?ms = concat (map (\<lambda>k. unlines (mcq_lines (k + 1) (?ms ! k))) [0..<length ?ms])"
    by blast
  then show ?thesis
    unfolding e .
qed

section \<open>The emission rule\<close>

lemma foldl_parse_line_no_answer:
  "list_all (\<lambda>l. \<not> startswith (strip l) ''Correct Answer:'') ls \<Longrightarrow>
     v_answer (foldl parse_line v ls) = v_answer v"
proof (induction ls arbitrary: v)
  case Nil
  then show ?case by simp
next
  case (Cons l ls)
  from Cons.prems have "v_answer (parse_line v l) = v_answer v"
    by (simp add: parse_line_def Let_def)
  with Cons.IH [of "parse_line v l"] Cons.prems show ?case by simp
qed

lemma foldl_parse_line_no_option:
  "list_all (\<lambda>l. \<not> is_option_line (strip l)) ls \<Longrightarrow>
     v_options v = [] \<Longrightarrow> v_state v \<noteq> Options \<Longrightarrow>
     v_options (foldl parse_line v ls) = []"
proof (induction ls arbitrary: v)
  case Nil
  then show ?case by simp
next
  case (Cons l ls)
  from Cons.prems
  have "v_options (parse_line v l) = [] \<and> v_state (parse_line v l) \<noteq> Options"
    by (simp add: parse_line_def Let_def)
  with Cons.IH [of "parse_line v l"] Cons.prems show ?case by simp
qed

text \<open>
  C2. For a block that is processed (its stripped text has at least 20 characters), a
  record is appended exactly when the options collected from its lines and the answer are
  both non-empty, and then it is the record of the collected values. A block none of whose
  lines starts with \<open>Correct Answer:\<close> adds no record, and neither does a block without
  an option line. The scenario and the explanation of an appended record may be empty, as
  in the block of the last conjunct.
\<close>

theorem parse_block_emission:
  "(20 \<le> length (strip block) \<longrightarrow>
      (let v = parse_lines (split_on CHR 0x0A (strip block)) in
         (v_options v \<noteq> [] \<and> v_answer v \<noteq> [] \<longrightarrow>
            parse_block mcqs block =
              mcqs @ [\<lparr>scenario = join '' '' (v_scenario v), options = v_options v,
                        answer = v_answer v, explanation = v_explanation v\<rparr>]) \<and>
         (v_options v = [] \<or> v_answer v = [] \<longrightarrow> parse_block mcqs block = mcqs))) \<and>
   (list_all (\<lambda>l. \<not> startswith (strip l) ''Correct Answer:'')
        (split_on CHR 0x0A (strip block)) \<longrightarrow>
      parse_block mcqs block = mcqs) \<and>
   (list_all (\<lambda>l. \<not> is_option_line (strip l)) (split_on CHR 0x0A (strip block)) \<longrightarrow>
      parse_block mcqs block = mcqs) \<and>
   parse_block [] ''A) The eviction is valid\<newline>Correct Answer: A'' =
     [\<lparr>scenario = [], options = [''A) The eviction is valid''], answer = ''A'',
       explanation = []\<rparr>]"
proof (intro conjI impI)
  assume "20 \<le> length (strip block)"
  then show "let v = parse_lines (split_on CHR 0x0A (strip block)) in
         (v_options v \<noteq> [] \<and> v_answer v \<noteq> [] \<longrightarrow>
            parse_block mcqs block =
              mcqs @ [\<lparr>scenario = join '' '' (v_scenario v), options = v_options v,
                        answer = v_answer v, explanation = v_explanation v\<rparr>]) \<and>
         (v_options v = [] \<or> v_answer v = [] \<longrightarrow> parse_block mcqs block = mcqs)"
    by (auto simp: parse_block_def Let_def)
next
  assume "list_all (\<lambda>l. \<not> startswith (strip l) ''Correct Answer:'')
        (split_on CHR 0x0A (strip block))"
  then have "v_answer (parse_lines (split_on CHR 0x0A (strip block))) = []"
    unfolding parse_lines_def by (simp add: foldl_parse_line_no_answer init_vars_def)
  then show "parse_block mcqs block = mcqs"
    by (simp add: parse_block_def Let_def)
next
  assume "list_all (\<lambda>l. \<not> is_option_line (strip l)) (split_on CHR 0x0A (strip block))"
  then have "v_options (parse_lines (split_on CHR 0x0A (strip block))) = []"
    unfolding parse_lines_def by (simp add: foldl_parse_line_no_option init_vars_def)
  then show "parse_block mcqs block = mcqs"
    by (simp add: parse_block_def Let_def)
next
  show "parse_block [] ''A) The eviction is valid\<newline>Correct Answer: A'' =
     [\<lparr>scenario = [], options = [''A) The eviction is valid''], answer = ''A'',
       explanation = []\<rparr>]"
    by code_simp
qed

theorem parse_block_emission_witness:
  "20 \<le> length (strip ''Is the eviction valid?\<newline>A) Yes\<newline>Correct Answer: B'') \<and>
   parse_block [] ''Is the eviction valid?\<newline>A) Yes\<newline>Correct Answer: B'' =
     [\<lparr>scenario = ''Is the eviction valid?'', options = [''A) Yes''], answer = ''B'',
       explanation = []\<rparr>] \<and>
   20 \<le> length (strip ''Is the eviction valid?\<newline>A) Yes\<newline>B) No\<newline>Explanation: Notice is due.'') \<and>
   list_all (\<lambda>l. \<not> startswith (strip l) ''Correct Answer:'')
     (split_on CHR 0x0A (strip ''Is the eviction valid?\<newline>A) Yes\<newline>B) No\<newline>Explanation: Notice is due.'')) \<and>
   parse_block [] ''Is the eviction valid?\<newline>A) Yes\<newline>B) No\<newline>Explanation: Notice is due.'' = [] \<and>
   20 \<le> length (strip ''Is the eviction valid?\<newline>Correct Answer: B'') \<and>
   list_all (\<lambda>l. \<not> is_option_line (strip l))
     (split_on CHR 0x0A (strip ''Is the eviction valid?\<newline>Correct Answer: B'')) \<and>
   parse_block [] ''Is the eviction valid?\<newline>Correct Answer: B'' = []"
proof -
  let ?b1 = "''Is the eviction valid?\<newline>A) Yes\<newline>Correct Answer: B''"
  let ?b2 = "''Is the eviction valid?\<newline>A) Yes\<newline>B) No\<newline>Explanation: Notice is due.''"
  let ?b3 = "''Is the eviction valid?\<newline>Correct Answer: B''"
  have l1: "20 \<le> length (strip ?b1)" by code_simp
  have v1: "parse_lines (split_on CHR 0x0A (strip ?b1)) =
      \<lparr>v_scenario = [''Is the eviction valid?''], v_options = [''A) Yes''], v_answer = ''B'',
        v_explanation = [], v_state = Answer\<rparr>"
    by code_simp
  have r1: "parse_block [] ?b1 =
     [\<lparr>scenario = ''Is the eviction valid?'', options = [''A) Yes''], answer = ''B'',
       explanation = []\<rparr>]"
    using parse_block_emission [of ?b1 "[]"] l1 v1 by (simp add: Let_def)
  have l2: "20 \<le> length (strip ?b2)" by code_simp
  have h2: "list_all (\<lambda>l. \<not> startswith (strip l) ''Correct Answer:'')
     (split_on CHR 0x0A (strip ?b2))" by code_simp
  have r2: "parse_block [] ?b2 = []"
    using parse_block_emission [of ?b2 "[]"] h2 by blast
  have l3: "20 \<le> length (strip ?b3)" by code_simp
  have h3: "list_all (\<lambda>l. \<not> is_option_line (strip l)) (split_on CHR 0x0A (strip ?b3))"
    by code_simp
  have r3: "parse_block [] ?b3 = []"
    using parse_block_emission [of ?b3 "[]"] h3 by blast
  from l1 r1 l2 h2 r2 l3 h3 r3 show ?thesis by blast
qed

section \<open>Normal texts\<close>

lemma is_space_space [simp]: "is_space CHR '' ''"
  by (simp add: is_space_def)

lemma split_ws_Nil [simp]: "split_ws [] = []"
  by (simp add: split_ws.simps)

lemma split_ws_spaces: "list_all is_space s \<Longrightarrow> split_ws s = []"
proof -
  assume "list_all is_space s"
  then have d: "dropWhile is_space s = []"
    by (simp add: list_all_iff)
  show ?thesis
    by (subst split_ws.simps) (simp add: d)
qed

lemma split_ws_skip: "is_space c \<Longrightarrow> split_ws (c # s) = split_ws s"
  by (subst split_ws.simps, subst (2) split_ws.simps) simp

lemma split_ws_word:
  assumes w: "is_word w" and r: "rest = [] \<or> is_space (hd rest)"
  shows "split_ws (w @ rest) = w # split_ws rest"
proof -
  from w obtain c cs where wc: "w = c # cs" and c: "\<not> is_space c"
    and cs: "\<forall>x \<in> set cs. \<not> is_space x"
    by (cases w) (auto simp: is_word_def list_all_iff)
  have tw: "takeWhile (\<lambda>x. \<not> is_space x) (cs @ rest) = cs"
    using cs r by (cases rest) (auto simp: takeWhile_append2)
  have dw: "dropWhile (\<lambda>x. \<not> is_space x) (cs @ rest) = rest"
    using cs r by (cases rest) (auto simp: dropWhile_append2)
  show ?thesis
    by (subst split_ws.simps) (simp add: wc c tw dw)
qed

lemma join_Cons: "ws \<noteq> [] \<Longrightarrow> join sep (w # ws) = w @ sep @ join sep ws"
  by (cases ws) simp_all

lemma split_ws_join:
  "list_all is_word ws \<Longrightarrow> list_all is_space tail \<Longrightarrow>
     split_ws (join '' '' ws @ tail) = ws"
proof (induction ws)
  case Nil
  then show ?case by (simp add: split_ws_spaces)
next
  case (Cons w ws)
  show ?case
  proof (cases "ws = []")
    case True
    have "tail = [] \<or> is_space (hd tail)"
      using Cons.prems(2) by (cases tail) auto
    with Cons.prems show ?thesis
      by (simp add: True split_ws_word split_ws_spaces)
  next
    case False
    have "split_ws (w @ CHR '' '' # (join '' '' ws @ tail)) =
        w # split_ws (CHR '' '' # (join '' '' ws @ tail))"
      using Cons.prems by (intro split_ws_word) simp_all
    with Cons False show ?thesis
      by (simp add: join_Cons split_ws_skip)
  qed
qed

lemma split_ws_words: "list_all is_word (split_ws s)"
proof (induction s rule: split_ws.induct)
  case (1 s)
  show ?case
  proof (cases "dropWhile is_space s")
    case Nil
    show ?thesis by (subst split_ws.simps) (simp add: Nil)
  next
    case (Cons c cs)
    then have "\<not> is_space c"
      by (metis hd_dropWhile list.distinct(1) list.sel(1))
    moreover have "list_all (\<lambda>x. \<not> is_space x) (takeWhile (\<lambda>x. \<not> is_space x) cs)"
      by (auto simp: list_all_iff dest: set_takeWhileD)
    ultimately have "is_word (c # takeWhile (\<lambda>x. \<not> is_space x) cs)"
      by (simp add: is_word_def)
    with 1 [OF Cons] show ?thesis
      by (subst split_ws.simps) (simp add: Cons)
  qed
qed

lemma clean_text_join:
  "list_all is_word ws \<Longrightarrow> list_all is_space tail \<Longrightarrow>
     clean_text (join '' '' ws @ tail) = join '' '' ws"
  by (simp add: clean_text_def split_ws_join)

lemma clean_text_idem: "clean_text (clean_text s) = clean_text s"
  using clean_text_join [of "split_ws s" "[]"] split_ws_words [of s]
  by (simp add: clean_text_def)

lemma join_nonempty: "w \<noteq> [] \<Longrightarrow> join sep (w # ws) \<noteq> []"
  by (cases ws) simp_all

lemma join_words_last:
  "list_all is_word ws \<Longrightarrow> join '' '' ws = [] \<or> \<not> is_space (last (join '' '' ws))"
proof (induction ws)
  case Nil
  then show ?case by simp
next
  case (Cons w ws)
  show ?case
  proof (cases "ws = []")
    case True
    with Cons.prems show ?thesis
      by (auto simp: is_word_def list_all_iff)
  next
    case False
    then have "join '' '' ws \<noteq> []"
      using Cons.prems by (cases ws) (auto simp: is_word_def join_nonempty simp del: join.simps)
    with Cons False show ?thesis
      by (simp add: join_Cons)
  qed
qed

lemma take_join_words:
  "list_all is_word ws \<Longrightarrow>
     \<exists>ws' tail. list_all is_word ws' \<and> take n (join '' '' ws) = join '' '' ws' @ tail \<and>
       (tail = [] \<or> tail = '' '' \<and> ws' \<noteq> [])"
proof (induction ws arbitrary: n)
  case Nil
  have "list_all is_word [] \<and> take n (join '' '' []) = join '' '' [] @ [] "
    by simp
  then show ?case by blast
next
  case (Cons w ws)
  from Cons.prems have w: "is_word w" and ws: "list_all is_word ws"
    by simp_all
  have short: "\<exists>ws' tail. list_all is_word ws' \<and> take k w = join '' '' ws' @ tail \<and>
       (tail = [] \<or> tail = '' '' \<and> ws' \<noteq> [])" for k
  proof (cases "take k w = []")
    case True
    then have "list_all is_word [] \<and> take k w = join '' '' [] @ []"
      by simp
    then show ?thesis by blast
  next
    case False
    have "list_all (\<lambda>c. \<not> is_space c) (take k w)"
      using w by (auto simp: is_word_def list_all_iff dest: in_set_takeD)
    with False have "list_all is_word [take k w] \<and> take k w = join '' '' [take k w] @ []"
      by (simp add: is_word_def)
    then show ?thesis by blast
  qed
  show ?case
  proof (cases "ws = []")
    case True
    with short [of n] show ?thesis by simp
  next
    case False
    then have j: "join '' '' (w # ws) = w @ '' '' @ join '' '' ws"
      by (simp add: join_Cons)
    show ?thesis
    proof (cases "n \<le> length w")
      case True
      with short [of n] show ?thesis by (simp add: j)
    next
      case False
      then obtain k where n: "n = length w + 1 + k"
        by (metis Suc_eq_plus1 Suc_leI add.assoc le_add_diff_inverse not_le)
      from Cons.IH [OF ws, of k] obtain ws' tail where
        g: "list_all is_word ws'" and t: "take k (join '' '' ws) = join '' '' ws' @ tail"
        and tl: "tail = [] \<or> tail = '' '' \<and> ws' \<noteq> []"
        by blast
      have tk: "take n (join '' '' (w # ws)) = w @ '' '' @ join '' '' ws' @ tail"
        by (simp add: j n t)
      show ?thesis
      proof (cases "ws' = []")
        case True
        with tl have "tail = []" by auto
        with tk True w
        have "list_all is_word [w] \<and> take n (join '' '' (w # ws)) = join '' '' [w] @ '' '' \<and>
          [w] \<noteq> []"
          by simp
        then show ?thesis by blast
      next
        case False
        with tk g w tl
        have "list_all is_word (w # ws') \<and>
            take n (join '' '' (w # ws)) = join '' '' (w # ws') @ tail \<and>
            (tail = [] \<or> tail = '' '' \<and> w # ws' \<noteq> [])"
          by (simp add: join_Cons)
        then show ?thesis by blast
      qed
    qed
  qed
qed

lemma take_clean_text_fixed:
  "(take n (clean_text (take n (clean_text s))) = take n (clean_text s)) =
   (take n (clean_text s) = [] \<or> last (take n (clean_text s)) \<noteq> CHR '' '')"
proof -
  from take_join_words [OF split_ws_words, of n s] obtain ws' tail where
    g: "list_all is_word ws'" and t: "take n (clean_text s) = join '' '' ws' @ tail"
    and tl: "tail = [] \<or> tail = '' '' \<and> ws' \<noteq> []"
    unfolding clean_text_def by blast
  have len: "length (take n (clean_text s)) \<le> n"
    by simp
  from tl show ?thesis
  proof
    assume e: "tail = []"
    then have c: "clean_text (take n (clean_text s)) = take n (clean_text s)"
      using clean_text_join [OF g, of "[]"] t by simp
    have "take n (take n (clean_text s)) = take n (clean_text s)"
      by simp
    moreover have "take n (clean_text s) = [] \<or> last (take n (clean_text s)) \<noteq> CHR '' ''"
      using join_words_last [OF g] t e by auto
    ultimately show ?thesis by (simp add: c)
  next
    assume e: "tail = '' '' \<and> ws' \<noteq> []"
    then have c: "clean_text (take n (clean_text s)) = join '' '' ws'"
      using clean_text_join [OF g, of "'' ''"] t by simp
    have "length (join '' '' ws') < length (take n (clean_text s))"
      using t e by simp
    then have "take n (join '' '' ws') \<noteq> take n (clean_text s)"
      using len by (metis length_take min.absorb4 min.strict_order_iff nat_neq_iff order.strict_trans1 take_all_iff leD le_less_linear)
    moreover have "last (take n (clean_text s)) = CHR '' ''"
      using t e by simp
    moreover have "take n (clean_text s) \<noteq> []"
      using t e by simp
    ultimately show ?thesis by (simp add: c)
  qed
qed

text \<open>
  C6. The normaliser (collapse, then cut at the budget) applied to its own
  result gives that result again exactly when the result does not end in a space, that is,
  when the cut does not fall directly behind a separating space. In particular it does so
  whenever the collapsed text fits the budget. This holds for every budget that is not
  negative, and so for the default one.
\<close>

theorem normalize_idempotent_iff:
  "(0 \<le> m \<longrightarrow>
      (truncate_text (clean_text (truncate_text (clean_text s) m)) m
         = truncate_text (clean_text s) m)
      = (truncate_text (clean_text s) m = [] \<or>
         last (truncate_text (clean_text s) m) \<noteq> CHR '' '')) \<and>
   (int (length (clean_text s)) \<le> m \<longrightarrow>
      truncate_text (clean_text (truncate_text (clean_text s) m)) m
        = truncate_text (clean_text s) m) \<and>
   ((normalize (normalize s) = normalize s)
      = (normalize s = [] \<or> last (normalize s) \<noteq> CHR '' ''))"
proof (intro conjI impI)
  assume "0 \<le> m"
  then show "(truncate_text (clean_text (truncate_text (clean_text s) m)) m
         = truncate_text (clean_text s) m)
      = (truncate_text (clean_text s) m = [] \<or>
         last (truncate_text (clean_text s) m) \<noteq> CHR '' '')"
    using take_clean_text_fixed [of "nat m" s] by (simp add: truncate_text_def)
next
  assume fits: "int (length (clean_text s)) \<le> m"
  then have m: "0 \<le> m" by simp
  from fits have "truncate_text (clean_text s) m = clean_text s"
    by (simp add: truncate_text_def)
  then show "truncate_text (clean_text (truncate_text (clean_text s) m)) m
        = truncate_text (clean_text s) m"
    by (simp add: clean_text_idem)
next
  show "(normalize (normalize s) = normalize s)
      = (normalize s = [] \<or> last (normalize s) \<noteq> CHR '' '')"
    using take_clean_text_fixed [of 15000 s]
    by (simp add: normalize_def truncate_text_def MAX_TOKENS_def)
qed

theorem normalize_idempotent_iff_witness:
  "(0::int) \<le> 3 \<and>
   truncate_text (clean_text ''a  b c'') 3 = ''a b'' \<and>
   truncate_text (clean_text (truncate_text (clean_text ''a  b c'') 3)) 3
     = truncate_text (clean_text ''a  b c'') 3 \<and>
   int (length (clean_text ''a  b'')) \<le> 3 \<and>
   truncate_text (clean_text (truncate_text (clean_text ''a  b'') 3)) 3
     = truncate_text (clean_text ''a  b'') 3"
proof -
  have v: "truncate_text (clean_text ''a  b c'') 3 = ''a b''"
    by code_simp
  have f: "int (length (clean_text ''a  b'')) \<le> 3"
    by code_simp
  from normalize_idempotent_iff [of 3 "''a  b c''"] v
  have "truncate_text (clean_text (truncate_text (clean_text ''a  b c'') 3)) 3
     = truncate_text (clean_text ''a  b c'') 3"
    by simp
  moreover from normalize_idempotent_iff [of 3 "''a  b''"] f
  have "truncate_text (clean_text (truncate_text (clean_text ''a  b'') 3)) 3
     = truncate_text (clean_text ''a  b'') 3"
    by blast
  ultimately show ?thesis using v f by simp
qed

text \<open>
  Idempotence does not hold for every text: where the cut falls behind a space it fails.
  The text of 14999 letters followed by \<open>'' b''\<close> is already collapsed, its first
  15000 characters end in the space, and the second pass removes that space.
\<close>

theorem normalize_not_idempotent:
  "normalize (normalize (replicate 14999 CHR ''a'' @ '' b''))
     \<noteq> normalize (replicate 14999 CHR ''a'' @ '' b'')"
proof -
  let ?w = "replicate 14999 CHR ''a''"
  have a: "\<not> is_space CHR ''a''"
    by (simp add: is_space_def)
  have w: "list_all is_word [?w, ''b'']"
    using a by (simp add: is_word_def list_all_iff is_space_def)
  have c: "clean_text (?w @ '' b'') = ?w @ '' b''"
    using clean_text_join [OF w, of "[]"] by simp
  have n: "normalize (?w @ '' b'') = ?w @ '' ''"
    by (simp add: normalize_def truncate_text_def MAX_TOKENS_def c)
  have "normalize (?w @ '' b'') \<noteq> [] \<and> last (normalize (?w @ '' b'')) = CHR '' ''"
    by (simp add: n)
  moreover have "(normalize (normalize (?w @ '' b'')) = normalize (?w @ '' b''))
      = (normalize (?w @ '' b'') = [] \<or> last (normalize (?w @ '' b'')) \<noteq> CHR '' '')"
    using take_clean_text_fixed [of 15000 "?w @ '' b''"]
    by (simp add: normalize_def truncate_text_def MAX_TOKENS_def)
  ultimately show ?thesis by blast
qed

section \<open>The delimiter, deterministically\<close>








lemma not_digit_dot [simp]: "\<not> is_digit CHR ''.''"
  by (simp add: is_digit_def)

lemma not_digit_star [simp]: "\<not> is_digit CHR ''*''"
  by (simp add: is_digit_def)

lemma not_digit_nl [simp]: "\<not> is_digit CHR 0x0A"
  by (simp add: is_digit_def)







section \<open>Texts without a delimiter\<close>






















section \<open>Stripping, splitting and replacing\<close>



lemma rstrip_append_spaces:
  assumes "list_all is_space g"
  shows "rstrip (x @ g) = rstrip x"
proof -
  have "dropWhile is_space (rev g @ rev x) = dropWhile is_space (rev x)"
    using assms by (intro dropWhile_append2) (simp add: list_all_iff)
  then show ?thesis
    by (simp add: rstrip_def)
qed










lemma strip_append_spaces: "list_all is_space g \<Longrightarrow> strip (x @ g) = strip x"
  unfolding strip_def by (simp only: rstrip_append_spaces)






lemma startswith_empty: "startswith [] (d # p) = False"
  by (simp add: startswith_def)







section \<open>The lines of a well-formed block\<close>













section \<open>A raw output of well-formed blocks\<close>














end
